theory Spec2Isabelle
  imports Complex_Main "HOL-Library.Sublist"
begin

section \<open>Text preprocessing and n-gram frequencies (starter_preprocess.py)\<close>

text \<open>
  The development embeds the classes \<^verbatim>\<open>TextPreprocessor\<close> and
  \<^verbatim>\<open>FrequencyAnalyzer\<close> of \<^verbatim>\<open>starter_preprocess.py\<close>.

  A Python \<^verbatim>\<open>str\<close> is a sequence of Unicode code points, so a string is a list
  of natural numbers (the code points); \<open>ustr\<close> turns an ASCII literal into such a list,
  for readable examples.
\<close>

subsection \<open>Strings\<close>

type_synonym ustring = "nat list"

definition ustr :: "string \<Rightarrow> ustring" where
  "ustr s = map of_char s"

text \<open>
  \<^verbatim>\<open>sep.join(parts)\<close>, \<^verbatim>\<open>sub in s\<close> and \<^verbatim>\<open>s.split(sep)\<close>.
  \<open>str_split\<close> scans from the left and cuts at every non-overlapping occurrence of the
  separator, as Python does; the source only calls it with the two-character separator
  \<^verbatim>\<open>'||'\<close> (Python raises \<^verbatim>\<open>ValueError\<close> for an empty separator, which
  never happens here).
\<close>

fun str_join :: "ustring \<Rightarrow> ustring list \<Rightarrow> ustring" where
  "str_join sep [] = []"
| "str_join sep [t] = t"
| "str_join sep (t # ts) = t @ sep @ str_join sep ts"

fun str_contains :: "ustring \<Rightarrow> ustring \<Rightarrow> bool" where
  "str_contains sub [] = (sub = [])"
| "str_contains sub (c # cs) = (prefix sub (c # cs) \<or> str_contains sub cs)"

fun str_split :: "ustring \<Rightarrow> ustring \<Rightarrow> ustring list" where
  "str_split sep [] = [[]]"
| "str_split sep (c # cs) =
     (if sep \<noteq> [] \<and> prefix sep (c # cs)
      then [] # str_split sep (drop (length sep) (c # cs))
      else (case str_split sep cs of
              [] \<Rightarrow> [[c]]
            | p # ps \<Rightarrow> (c # p) # ps))"

subsection \<open>Dictionaries\<close>

text \<open>
  A Python \<^verbatim>\<open>dict\<close> keeps its items in insertion order and iterates in that order:
  it is an association list with distinct keys. \<^verbatim>\<open>d[k] = v\<close> overwrites the value of
  an existing key in place and appends a new key at the end (\<open>dict_set\<close>);
  \<^verbatim>\<open>d.get(k, default)\<close> is \<open>dict_get\<close>. \<^verbatim>\<open>Counter(iterable)\<close> counts the
  elements one by one with \<^verbatim>\<open>self[elem] = self.get(elem, 0) + 1\<close>, and
  \<^verbatim>\<open>most_common(n)\<close> is \<^verbatim>\<open>sorted(items, key=itemgetter(1), reverse=True)[:n]\<close>,
  a stable sort by descending count.
\<close>

fun dict_set :: "'k \<Rightarrow> 'v \<Rightarrow> ('k \<times> 'v) list \<Rightarrow> ('k \<times> 'v) list" where
  "dict_set k v [] = [(k, v)]"
| "dict_set k v ((k', v') # d) = (if k' = k then (k', v) # d else (k', v') # dict_set k v d)"

definition dict_get :: "('k \<times> 'v) list \<Rightarrow> 'k \<Rightarrow> 'v \<Rightarrow> 'v" where
  "dict_get d k dflt = (case map_of d k of None \<Rightarrow> dflt | Some v \<Rightarrow> v)"

fun count_elements :: "'k list \<Rightarrow> ('k \<times> int) list \<Rightarrow> ('k \<times> int) list" where
  "count_elements [] d = d"
| "count_elements (x # xs) d = count_elements xs (dict_set x (dict_get d x 0 + 1) d)"

definition Counter :: "'k list \<Rightarrow> ('k \<times> int) list" where
  "Counter xs = count_elements xs []"

definition most_common :: "nat \<Rightarrow> ('k \<times> int) list \<Rightarrow> ('k \<times> int) list" where
  "most_common n d = take n (sort_key (\<lambda>p. - snd p) d)"

subsection \<open>Slices and ranges\<close>

text \<open>
  \<^verbatim>\<open>xs[start:stop]\<close> with Python's rule for indices: a negative index counts from
  the end, and every index is clamped to the list. \<^verbatim>\<open>range(k)\<close> is empty for
  \<open>k \<le> 0\<close>.
\<close>

definition slice_index :: "int \<Rightarrow> int \<Rightarrow> int" where
  "slice_index len k = (if k < 0 then max 0 (k + len) else min k len)"

definition py_slice :: "'a list \<Rightarrow> int \<Rightarrow> int \<Rightarrow> 'a list" where
  "py_slice xs start stop =
     (let len = int (length xs);
          lo = slice_index len start;
          hi = slice_index len stop
      in take (nat (hi - lo)) (drop (nat lo) xs))"

definition py_range :: "int \<Rightarrow> int list" where
  "py_range k = map int [0..<nat k]"

subsection \<open>Character classes\<close>

text \<open>
  \<^verbatim>\<open>str.lower()\<close>, the regular-expression classes \<^verbatim>\<open>\w\<close> and
  \<^verbatim>\<open>\s\<close>, and the whitespace that \<^verbatim>\<open>str.strip()\<close> and
  \<^verbatim>\<open>str.split()\<close> recognise are given by the Unicode tables of the Python runtime,
  which are not part of the repository. The functions below take them as a parameter
  \<open>db\<close>. The instance \<open>ascii_db\<close> is the restriction of Python's tables to ASCII:
  on a text of ASCII characters Python computes what the model computes with
  \<open>ascii_db\<close> (letters A-Z are lower-cased; the word characters are the letters, the
  digits and the underscore; the whitespace characters are U+0009-U+000D, U+001C-U+001F and
  the space).
\<close>

record unicode_db =
  str_lower :: "ustring \<Rightarrow> ustring"
  is_word :: "nat \<Rightarrow> bool"
  is_space :: "nat \<Rightarrow> bool"

definition ascii_lower :: "nat \<Rightarrow> nat" where
  "ascii_lower c = (if 65 \<le> c \<and> c \<le> 90 then c + 32 else c)"

definition ascii_db :: unicode_db where
  "ascii_db = \<lparr> str_lower = map ascii_lower,
                is_word = (\<lambda>c. (48 \<le> c \<and> c \<le> 57) \<or> (65 \<le> c \<and> c \<le> 90) \<or> c = 95
                               \<or> (97 \<le> c \<and> c \<le> 122)),
                is_space = (\<lambda>c. (9 \<le> c \<and> c \<le> 13) \<or> (28 \<le> c \<and> c \<le> 32)) \<rparr>"

subsection \<open>TextPreprocessor.normalize_text\<close>

text \<open>
  \<^verbatim>\<open>re.sub\<close> with a one-character class and a one-character replacement rewrites
  each character on its own (\<open>sub_class\<close>). The code points are:
  34 the double quote, 39 the apostrophe, 45 the hyphen-minus, 46 the full stop, 33 the
  exclamation mark, 63 the question mark, 32 the space, 8216 and 8217 the curly single
  quotes, 8212 and 8211 the em and en dash.

  \<open>kept_class\<close> is the class \<^verbatim>\<open>[\w\s.!?\'-]\<close> whose complement line 54 replaces.
  \<open>sub_stray\<close> is line 57, \<^verbatim>\<open>(?<!\w)'(?!\w)|[^\w\s]\<close>: a character is replaced
  when it is an apostrophe with no word character before and none after it (the
  look-arounds read the text being scanned, not the replaced one), or when it is neither a
  word character nor whitespace. \<open>collapse_ws\<close> is \<^verbatim>\<open>re.sub(r'\s+', ' ', text)\<close>:
  the flag says whether the scan is inside a run of whitespace.
\<close>

definition sub_class :: "(nat \<Rightarrow> bool) \<Rightarrow> nat \<Rightarrow> ustring \<Rightarrow> ustring" where
  "sub_class p r s = map (\<lambda>c. if p c then r else c) s"

definition kept_class :: "unicode_db \<Rightarrow> nat \<Rightarrow> bool" where
  "kept_class db c = (is_word db c \<or> is_space db c \<or> c = 46 \<or> c = 33 \<or> c = 63 \<or> c = 39 \<or> c = 45)"

fun word_at :: "unicode_db \<Rightarrow> nat option \<Rightarrow> bool" where
  "word_at db None = False"
| "word_at db (Some c) = is_word db c"

fun first_char :: "ustring \<Rightarrow> nat option" where
  "first_char [] = None"
| "first_char (c # cs) = Some c"

fun sub_stray :: "unicode_db \<Rightarrow> nat option \<Rightarrow> ustring \<Rightarrow> ustring" where
  "sub_stray db prev [] = []"
| "sub_stray db prev (c # cs) =
     (if (c = 39 \<and> \<not> word_at db prev \<and> \<not> word_at db (first_char cs))
           \<or> \<not> (is_word db c \<or> is_space db c)
      then 32 else c) # sub_stray db (Some c) cs"

fun collapse_ws :: "unicode_db \<Rightarrow> bool \<Rightarrow> ustring \<Rightarrow> ustring" where
  "collapse_ws db in_run [] = []"
| "collapse_ws db in_run (c # cs) =
     (if is_space db c
      then (if in_run then collapse_ws db True cs else 32 # collapse_ws db True cs)
      else c # collapse_ws db False cs)"

definition strip :: "unicode_db \<Rightarrow> ustring \<Rightarrow> ustring" where
  "strip db s = rev (dropWhile (is_space db) (rev (dropWhile (is_space db) s)))"

definition normalize_text :: "unicode_db \<Rightarrow> ustring \<Rightarrow> bool \<Rightarrow> ustring" where
  "normalize_text db text preserve_sentences =
     (let text = str_lower db text;
          text = sub_class (\<lambda>c. c = 34) 34 text;
          text = sub_class (\<lambda>c. c = 8216 \<or> c = 8217) 39 text;
          text = sub_class (\<lambda>c. c = 8212 \<or> c = 8211) 45 text;
          text = (if preserve_sentences
                  then sub_class (\<lambda>c. \<not> kept_class db c) 32 text
                  else sub_stray db None text);
          text = collapse_ws db False text
      in strip db text)"

subsection \<open>Tokenizers, statistics and summary\<close>

text \<open>
  \<open>re_split_terminators\<close> is \<^verbatim>\<open>re.split(r'[.!?]+', text)\<close>: the pieces between the
  maximal runs of terminators, the empty pieces at both ends included. \<open>split_ws\<close> is
  \<^verbatim>\<open>str.split()\<close> with no argument: the maximal runs of non-whitespace.
\<close>

definition is_terminator :: "nat \<Rightarrow> bool" where
  "is_terminator c = (c = 46 \<or> c = 33 \<or> c = 63)"

fun re_split_terminators :: "bool \<Rightarrow> ustring \<Rightarrow> ustring \<Rightarrow> ustring list" where
  "re_split_terminators in_run acc [] = [rev acc]"
| "re_split_terminators in_run acc (c # cs) =
     (if is_terminator c
      then (if in_run then re_split_terminators True [] cs
            else rev acc # re_split_terminators True [] cs)
      else re_split_terminators False (c # acc) cs)"

definition tokenize_sentences :: "unicode_db \<Rightarrow> ustring \<Rightarrow> ustring list" where
  "tokenize_sentences db text =
     (let sentences = re_split_terminators False [] text
      in map (strip db) (filter (\<lambda>s. strip db s \<noteq> []) sentences))"

fun split_ws :: "unicode_db \<Rightarrow> ustring \<Rightarrow> ustring \<Rightarrow> ustring list" where
  "split_ws db acc [] = (if acc = [] then [] else [rev acc])"
| "split_ws db acc (c # cs) =
     (if is_space db c
      then (if acc = [] then split_ws db [] cs else rev acc # split_ws db [] cs)
      else split_ws db (c # acc) cs)"

definition tokenize_words :: "unicode_db \<Rightarrow> ustring \<Rightarrow> ustring list" where
  "tokenize_words db text =
     (let text_for_words = filter (\<lambda>c. \<not> is_terminator c) text;
          words = split_ws db [] text_for_words
      in filter (\<lambda>w. w \<noteq> []) words)"

text \<open>
  The dictionary returned by \<^verbatim>\<open>get_text_statistics\<close>. Its two averages
  (\<^verbatim>\<open>avg_word_length\<close>, \<^verbatim>\<open>avg_sentence_length\<close>) are rounded floating-point
  numbers; they are left out of the record.
\<close>

record text_statistics =
  total_characters :: nat
  total_words :: nat
  total_sentences :: nat
  most_common_words :: "(ustring \<times> int) list"

definition get_text_statistics :: "unicode_db \<Rightarrow> ustring \<Rightarrow> text_statistics" where
  "get_text_statistics db text =
     (let words = tokenize_words db text;
          sentences = tokenize_sentences db text;
          word_counts = Counter words
      in \<lparr> total_characters = length text,
           total_words = length words,
           total_sentences = length sentences,
           most_common_words = most_common 10 word_counts \<rparr>)"

definition endswith_terminator :: "ustring \<Rightarrow> bool" where
  "endswith_terminator s = (s \<noteq> [] \<and> is_terminator (last s))"

definition create_summary :: "unicode_db \<Rightarrow> ustring \<Rightarrow> int \<Rightarrow> ustring" where
  "create_summary db text num_sentences =
     (let sentences = tokenize_sentences db text
      in if sentences = [] then []
         else (let summary_sentences = py_slice sentences 0 num_sentences;
                   summary = str_join (ustr ''. '') summary_sentences
               in if \<not> endswith_terminator summary then summary @ ustr ''.'' else summary))"

subsection \<open>FrequencyAnalyzer\<close>

text \<open>
  A key of a frequency table is a string (\<open>Scalar\<close>) or a tuple of strings
  (\<open>Tuple\<close>). The errors are the exceptions Python raises in
  \<^verbatim>\<open>calculate_probabilities\<close> (\<^verbatim>\<open>ZeroDivisionError\<close>) and in the
  \<^verbatim>\<open>json.dump\<close> of \<^verbatim>\<open>save_frequencies\<close> (\<^verbatim>\<open>UnicodeEncodeError\<close>,
  \<^verbatim>\<open>ValueError\<close>), and the two error names of the specification, which no statement
  of the source raises.
\<close>

datatype key = Scalar ustring | Tuple "ustring list"

datatype error =
    ZeroDivisionError | UnicodeEncodeError | ValueError
  | EmptyDistributionError | SerializationError

definition calculate_ngrams :: "ustring list \<Rightarrow> int \<Rightarrow> (key \<times> int) list" where
  "calculate_ngrams tokens n =
     (if n = 1 then Counter (map Scalar tokens)
      else Counter (map (\<lambda>i. Tuple (py_slice tokens i (i + n)))
                        (py_range (int (length tokens) - n + 1))))"

text \<open>
  \<^verbatim>\<open>smoothing\<close> and the probabilities are floating-point numbers in the source. The
  model computes with exact reals: it decides which calls raise
  \<^verbatim>\<open>ZeroDivisionError\<close> (the division by the total is evaluated once per item),
  not how the quotients are rounded.
\<close>

fun probabilities_loop ::
  "real \<Rightarrow> real \<Rightarrow> ('k \<times> int) list \<Rightarrow> ('k \<times> real) list \<Rightarrow> error + ('k \<times> real) list" where
  "probabilities_loop total_count smoothing [] probabilities = Inr probabilities"
| "probabilities_loop total_count smoothing ((ngram, count) # rest) probabilities =
     (if total_count = 0 then Inl ZeroDivisionError
      else probabilities_loop total_count smoothing rest
             (dict_set ngram ((real_of_int count + smoothing) / total_count) probabilities))"

definition calculate_probabilities :: "('k \<times> int) list \<Rightarrow> real \<Rightarrow> error + ('k \<times> real) list" where
  "calculate_probabilities ngram_counts smoothing =
     (let total_count = real_of_int (sum_list (map snd ngram_counts))
                    + smoothing * real (length ngram_counts)
      in probabilities_loop total_count smoothing ngram_counts [])"

text \<open>
  \<^verbatim>\<open>save_frequencies\<close> builds \<^verbatim>\<open>json_friendly\<close> (lines 204 to 209) and dumps
  it into a file opened for writing with the utf-8 encoding (lines 211 and 212);
  \<^verbatim>\<open>load_frequencies\<close> loads a mapping and rebuilds the keys. A file that was
  written completely is modelled by the mapping it holds, from strings to counts:
  \<^verbatim>\<open>json.load\<close> returns the mapping that \<^verbatim>\<open>json.dump\<close> wrote.

  \<^verbatim>\<open>json.dump(json_friendly, f, indent=2, ensure_ascii=False)\<close> writes the items in
  order, for each item the key and then the value (\<open>dump_items\<close>). With
  \<^verbatim>\<open>ensure_ascii=False\<close> the characters of a key are written as they are, and the
  utf-8 file refuses a surrogate code point (U+D800 to U+DFFF) with
  \<^verbatim>\<open>UnicodeEncodeError\<close>: \<open>utf8_encodable\<close> holds of the code points utf-8 can
  encode. A count is written in decimal, and the conversion of an integer of more than
  4300 digits raises \<^verbatim>\<open>ValueError\<close> (the default limit of CPython 3.11 and later).
  A failed dump leaves a truncated file and the exception goes to the caller. A failure of
  \<^verbatim>\<open>open\<close> itself depends on the file system and is not modelled: the destination
  is taken to be writable. The body of \<^verbatim>\<open>save_frequencies\<close> has no
  \<^verbatim>\<open>raise\<close> and no check of the delimiter.
\<close>

definition DELIM :: ustring where
  "DELIM = ustr ''||''"

fun encode_key :: "key \<Rightarrow> ustring" where
  "encode_key (Tuple ts) = str_join DELIM ts"
| "encode_key (Scalar s) = s"

definition decode_key :: "ustring \<Rightarrow> key" where
  "decode_key s = (if str_contains DELIM s then Tuple (str_split DELIM s) else Scalar s)"

fun save_loop :: "(key \<times> int) list \<Rightarrow> (ustring \<times> int) list \<Rightarrow> (ustring \<times> int) list" where
  "save_loop [] jf = jf"
| "save_loop ((k, v) # rest) jf = save_loop rest (dict_set (encode_key k) v jf)"

fun load_loop :: "(ustring \<times> int) list \<Rightarrow> (key \<times> int) list \<Rightarrow> (key \<times> int) list" where
  "load_loop [] fr = fr"
| "load_loop ((s, v) # rest) fr = load_loop rest (dict_set (decode_key s) v fr)"

definition utf8_encodable :: "nat \<Rightarrow> bool" where
  "utf8_encodable c = (c < 55296 \<or> (57343 < c \<and> c \<le> 1114111))"

definition int_writable :: "int \<Rightarrow> bool" where
  "int_writable v = (\<bar>v\<bar> < 10 ^ 4300)"

fun dump_items :: "(ustring \<times> int) list \<Rightarrow> error option" where
  "dump_items [] = None"
| "dump_items ((k, v) # rest) =
     (if \<not> list_all utf8_encodable k then Some UnicodeEncodeError
      else if \<not> int_writable v then Some ValueError
      else dump_items rest)"

definition save_frequencies :: "(key \<times> int) list \<Rightarrow> error + (ustring \<times> int) list" where
  "save_frequencies frequencies =
     (let json_friendly = save_loop frequencies []
      in case dump_items json_friendly of
           Some e \<Rightarrow> Inl e
         | None \<Rightarrow> Inr json_friendly)"

definition load_frequencies :: "(ustring \<times> int) list \<Rightarrow> (key \<times> int) list" where
  "load_frequencies json_data = load_loop json_data []"

subsection \<open>Predicates used in the statements\<close>

text \<open>
  \<open>reload\<close> is \<^verbatim>\<open>load_frequencies\<close> after \<^verbatim>\<open>save_frequencies\<close>.
  \<open>delimiter_free\<close> says that no token of a key contains the delimiter.
  \<open>roundtrip_key\<close> is the stronger condition under which a key survives: a tuple has at
  least two elements, and none of its elements but the last ends with a vertical bar
  (code point 124). \<open>key_encodable\<close> says that every token of a key can be encoded in
  utf-8.
\<close>

definition ends_with_bar :: "ustring \<Rightarrow> bool" where
  "ends_with_bar t = (t \<noteq> [] \<and> last t = 124)"

fun delimiter_free :: "key \<Rightarrow> bool" where
  "delimiter_free (Scalar s) = (\<not> str_contains DELIM s)"
| "delimiter_free (Tuple ts) = list_all (\<lambda>t. \<not> str_contains DELIM t) ts"

fun roundtrip_key :: "key \<Rightarrow> bool" where
  "roundtrip_key (Scalar s) = (\<not> str_contains DELIM s)"
| "roundtrip_key (Tuple ts) =
     (2 \<le> length ts \<and> list_all (\<lambda>t. \<not> str_contains DELIM t) ts
        \<and> list_all (\<lambda>t. \<not> ends_with_bar t) (butlast ts))"

fun key_encodable :: "key \<Rightarrow> bool" where
  "key_encodable (Scalar s) = list_all utf8_encodable s"
| "key_encodable (Tuple ts) = list_all (list_all utf8_encodable) ts"

definition reload :: "(key \<times> int) list \<Rightarrow> error + (key \<times> int) list" where
  "reload frequencies =
     (case save_frequencies frequencies of
        Inl e \<Rightarrow> Inl e
      | Inr json_data \<Rightarrow> Inr (load_frequencies json_data))"

text \<open>
  \<open>standardize\<close> names the three substitutions of lines 48 to 50 of
  \<^verbatim>\<open>normalize_text\<close> (quotes and dashes). \<open>lower_stable\<close> is the property of
  \<^verbatim>\<open>str.lower\<close> that idempotence rests on: a string made of characters of a
  lower-cased string, spaces, apostrophes and hyphens is its own lower-case form.
  \<open>tidy\<close> describes collapsed whitespace: every whitespace character is a space and is
  not followed by whitespace.
\<close>

definition standardize :: "ustring \<Rightarrow> ustring" where
  "standardize text =
     sub_class (\<lambda>c. c = 8212 \<or> c = 8211) 45
       (sub_class (\<lambda>c. c = 8216 \<or> c = 8217) 39
          (sub_class (\<lambda>c. c = 34) 34 text))"

definition lower_stable :: "unicode_db \<Rightarrow> bool" where
  "lower_stable db =
     (\<forall>s t. set t \<subseteq> set (str_lower db s) \<union> {32, 39, 45} \<longrightarrow> str_lower db t = t)"

fun tidy :: "unicode_db \<Rightarrow> ustring \<Rightarrow> bool" where
  "tidy db [] = True"
| "tidy db (c # s) =
     ((is_space db c \<longrightarrow> c = 32 \<and> (case s of [] \<Rightarrow> True | d # _ \<Rightarrow> \<not> is_space db d))
      \<and> tidy db s)"

text \<open>
  \<open>first_index xs x\<close> is the position of the first occurrence of \<open>x\<close> in \<open>xs\<close>
  (the length of \<open>xs\<close> when there is none).
\<close>

definition first_index :: "'a list \<Rightarrow> 'a \<Rightarrow> nat" where
  "first_index xs x = length (takeWhile (\<lambda>y. y \<noteq> x) xs)"

section \<open>Serialization\<close>

lemma DELIM_eq: "DELIM = [124, 124]"
  by (simp add: DELIM_def ustr_def)

lemma dict_set_fresh: "k \<notin> fst ` set d \<Longrightarrow> dict_set k v d = d @ [(k, v)]"
  by (induction d) auto

lemma split_no_delim: "\<not> str_contains DELIM t \<Longrightarrow> str_split DELIM t = [t]"
  by (induction t) auto

lemma split_token_delim:
  "\<not> str_contains DELIM t \<Longrightarrow> \<not> ends_with_bar t \<Longrightarrow>
     str_split DELIM (t @ DELIM @ r) = t # str_split DELIM r"
proof (induction t)
  case Nil
  then show ?case by (simp add: DELIM_eq)
next
  case (Cons c t)
  have nb: "\<not> ends_with_bar t"
    using Cons.prems(2) by (auto simp: ends_with_bar_def)
  have np: "\<not> prefix DELIM (c # t @ DELIM @ r)"
  proof (cases t)
    case Nil
    then show ?thesis using Cons.prems(2) by (auto simp: ends_with_bar_def DELIM_eq)
  next
    case (Cons d t')
    then show ?thesis using Cons.prems(1) by (auto simp: DELIM_eq)
  qed
  from Cons.prems(1) have "\<not> str_contains DELIM t" by simp
  with Cons.IH nb have "str_split DELIM (t @ DELIM @ r) = t # str_split DELIM r" by simp
  with np show ?case by simp
qed

lemma split_join:
  "ts \<noteq> [] \<Longrightarrow> list_all (\<lambda>t. \<not> str_contains DELIM t) ts \<Longrightarrow>
     list_all (\<lambda>t. \<not> ends_with_bar t) (butlast ts) \<Longrightarrow>
     str_split DELIM (str_join DELIM ts) = ts"
proof (induction ts)
  case Nil
  then show ?case by simp
next
  case (Cons t ts)
  show ?case
  proof (cases ts)
    case Nil
    with Cons.prems show ?thesis by (simp add: split_no_delim)
  next
    case (Cons u us)
    with Cons.prems Cons.IH show ?thesis by (simp add: split_token_delim)
  qed
qed

lemma contains_append: "str_contains sub r \<Longrightarrow> str_contains sub (t @ r)"
  by (induction t) auto

lemma contains_prefix: "prefix sub r \<Longrightarrow> str_contains sub r"
  by (cases r) auto

lemma join_contains_delim: "2 \<le> length ts \<Longrightarrow> str_contains DELIM (str_join DELIM ts)"
proof (cases ts)
  case Nil
  assume "2 \<le> length ts"
  with Nil show ?thesis by simp
next
  case (Cons t us)
  assume "2 \<le> length ts"
  with Cons obtain u vs where us: "us = u # vs" by (cases us) auto
  have "str_contains DELIM (DELIM @ str_join DELIM (u # vs))"
    by (rule contains_prefix) simp
  then show ?thesis using Cons us by (simp add: contains_append)
qed

lemma decode_encode: "roundtrip_key k \<Longrightarrow> decode_key (encode_key k) = k"
proof (cases k)
  case (Scalar s)
  assume "roundtrip_key k"
  with Scalar show ?thesis by (simp add: decode_key_def)
next
  case (Tuple ts)
  assume rk: "roundtrip_key k"
  with Tuple have "ts \<noteq> []" by auto
  with rk Tuple show ?thesis
    by (simp add: decode_key_def join_contains_delim split_join)
qed

lemma encode_inj:
  "roundtrip_key k \<Longrightarrow> roundtrip_key k' \<Longrightarrow> encode_key k = encode_key k' \<Longrightarrow> k = k'"
  by (metis decode_encode)

lemma save_loop_fresh:
  "distinct (map encode_key (map fst t)) \<Longrightarrow>
   encode_key ` fst ` set t \<inter> fst ` set jf = {} \<Longrightarrow>
   save_loop t jf = jf @ map (\<lambda>(k, v). (encode_key k, v)) t"
proof (induction t arbitrary: jf)
  case Nil
  then show ?case by simp
next
  case (Cons p t)
  obtain k v where p: "p = (k, v)" by (cases p)
  from Cons.prems p have fresh: "encode_key k \<notin> fst ` set jf" by auto
  from Cons.prems p have d: "distinct (map encode_key (map fst t))" by simp
  from Cons.prems p
  have "encode_key ` fst ` set t \<inter> fst ` set (jf @ [(encode_key k, v)]) = {}"
    by (auto simp: image_iff)
  with Cons.IH d have "save_loop t (jf @ [(encode_key k, v)])
      = (jf @ [(encode_key k, v)]) @ map (\<lambda>(k, v). (encode_key k, v)) t"
    by blast
  with p fresh show ?case by (simp add: dict_set_fresh)
qed

lemma load_loop_fresh:
  "distinct (map decode_key (map fst f)) \<Longrightarrow>
   decode_key ` fst ` set f \<inter> fst ` set fr = {} \<Longrightarrow>
   load_loop f fr = fr @ map (\<lambda>(s, v). (decode_key s, v)) f"
proof (induction f arbitrary: fr)
  case Nil
  then show ?case by simp
next
  case (Cons p f)
  obtain s v where p: "p = (s, v)" by (cases p)
  from Cons.prems p have fresh: "decode_key s \<notin> fst ` set fr" by auto
  from Cons.prems p have d: "distinct (map decode_key (map fst f))" by simp
  from Cons.prems p
  have "decode_key ` fst ` set f \<inter> fst ` set (fr @ [(decode_key s, v)]) = {}"
    by (auto simp: image_iff)
  with Cons.IH d have "load_loop f (fr @ [(decode_key s, v)])
      = (fr @ [(decode_key s, v)]) @ map (\<lambda>(s, v). (decode_key s, v)) f"
    by blast
  with p fresh show ?case by (simp add: dict_set_fresh)
qed

lemma roundtrip_lists:
  assumes d: "distinct (map fst t)" and ok: "list_all (\<lambda>p. roundtrip_key (fst p)) t"
  shows "load_loop (save_loop t []) [] = t"
proof -
  have inj: "inj_on encode_key (set (map fst t))"
    using ok by (auto simp: inj_on_def list_all_iff intro: encode_inj)
  have de: "distinct (map encode_key (map fst t))"
    using d inj by (subst distinct_map) simp
  have s: "save_loop t [] = map (\<lambda>(k, v). (encode_key k, v)) t"
    using save_loop_fresh[OF de, of "[]"] by simp
  have keys: "map decode_key (map fst (map (\<lambda>(k, v). (encode_key k, v)) t)) = map fst t"
    using ok by (induction t) (auto simp: decode_encode)
  have l: "load_loop (map (\<lambda>(k, v). (encode_key k, v)) t) []
        = map (\<lambda>(s, v). (decode_key s, v)) (map (\<lambda>(k, v). (encode_key k, v)) t)"
  proof -
    have dd: "distinct (map decode_key (map fst (map (\<lambda>(k, v). (encode_key k, v)) t)))"
      unfolding keys by (rule d)
    show ?thesis using load_loop_fresh[OF dd, of "[]"] by simp
  qed
  have "map (\<lambda>(s, v). (decode_key s, v)) (map (\<lambda>(k, v). (encode_key k, v)) t) = t"
    using ok by (induction t) (auto simp: decode_encode)
  with s l show ?thesis by simp
qed


lemma dict_set_key_list:
  "map fst (dict_set k v d) = (if k \<in> set (map fst d) then map fst d else map fst d @ [k])"
  by (induction d) (force split: if_splits)+

lemma dict_set_keys: "set (map fst (dict_set k v d)) = insert k (set (map fst d))"
  unfolding dict_set_key_list by auto

lemma save_loop_keys:
  "set (map fst (save_loop t jf)) = set (map fst jf) \<union> set (map (\<lambda>p. encode_key (fst p)) t)"
proof (induction t arbitrary: jf)
  case Nil
  then show ?case by simp
next
  case (Cons p t)
  obtain k v where p: "p = (k, v)" by (cases p)
  show ?case unfolding p save_loop.simps Cons.IH dict_set_keys by auto
qed

lemma int_writable_small: "\<bar>v\<bar> < 10 \<Longrightarrow> int_writable v"
proof -
  assume a: "\<bar>v\<bar> < 10"
  have "(10::int) ^ 1 \<le> 10 ^ 4300"
    by (rule power_increasing) simp_all
  then have "(10::int) \<le> 10 ^ 4300"
    by (simp only: power_one_right)
  with a have "\<bar>v\<bar> < 10 ^ 4300"
    by (rule less_le_trans)
  then show ?thesis unfolding int_writable_def .
qed

lemma dump_items_ok:
  "list_all (\<lambda>p. list_all utf8_encodable (fst p) \<and> int_writable (snd p)) jf \<Longrightarrow>
     dump_items jf = None"
  by (induction jf) auto

lemma dict_set_all: "list_all P d \<Longrightarrow> P (k, v) \<Longrightarrow> list_all P (dict_set k v d)"
  by (induction d) auto

lemma join_encodable:
  "list_all (list_all utf8_encodable) ts \<Longrightarrow> list_all utf8_encodable (str_join DELIM ts)"
proof (induction ts)
  case Nil
  then show ?case by simp
next
  case (Cons t ts)
  show ?case
  proof (cases ts)
    case Nil
    with Cons.prems show ?thesis by simp
  next
    case (Cons u us)
    with Cons.prems Cons.IH show ?thesis
      by (simp add: DELIM_eq utf8_encodable_def)
  qed
qed

lemma encode_key_encodable: "key_encodable k \<Longrightarrow> list_all utf8_encodable (encode_key k)"
  by (cases k) (simp_all add: join_encodable)

lemma save_loop_all:
  "list_all (\<lambda>p. list_all utf8_encodable (fst p) \<and> int_writable (snd p)) jf \<Longrightarrow>
   list_all (\<lambda>p. key_encodable (fst p) \<and> int_writable (snd p)) t \<Longrightarrow>
   list_all (\<lambda>p. list_all utf8_encodable (fst p) \<and> int_writable (snd p)) (save_loop t jf)"
proof (induction t arbitrary: jf)
  case Nil
  then show ?case by simp
next
  case (Cons p t)
  obtain k v where p: "p = (k, v)" by (cases p)
  from Cons.prems p have kv: "list_all utf8_encodable (encode_key k) \<and> int_writable v"
    by (simp add: encode_key_encodable)
  have "list_all (\<lambda>p. list_all utf8_encodable (fst p) \<and> int_writable (snd p))
          (dict_set (encode_key k) v jf)"
    by (rule dict_set_all) (use Cons.prems(1) kv in simp_all)
  with Cons.IH Cons.prems(2) p show ?case by simp
qed

lemma save_frequencies_ok:
  "list_all (\<lambda>p. key_encodable (fst p) \<and> int_writable (snd p)) t \<Longrightarrow>
     save_frequencies t = Inr (save_loop t [])"
  using save_loop_all[of "[]" t] by (simp add: save_frequencies_def dump_items_ok)


text \<open>
  A key that holds a surrogate code point cannot be written: the dump fails at that item.
\<close>

lemma save_frequencies_surrogate:
  "save_frequencies [(Scalar [55296], 1)] = Inl UnicodeEncodeError"
  by (simp add: save_frequencies_def utf8_encodable_def)

text \<open>
  Claim C1, as stated: deserializing the serialized form of a table whose tokens never
  contain the delimiter gives back the table, every key with its shape. This fails on the
  code. The one-element tuple key \<^verbatim>\<open>('a',)\<close> is written as the string
  \<^verbatim>\<open>'a'\<close> and read back as a scalar. The tuple key \<^verbatim>\<open>('a|', 'b')\<close> is written
  as \<^verbatim>\<open>'a|||b'\<close>, which is split at its first two bars into \<^verbatim>\<open>('a', '|b')\<close>.
\<close>

theorem C1_roundtrip_counterexample:
  "delimiter_free (Tuple [ustr ''a''])
   \<and> reload [(Tuple [ustr ''a''], 1)] = Inr [(Scalar (ustr ''a''), 1)]
   \<and> delimiter_free (Tuple [ustr ''a|'', ustr ''b''])
   \<and> reload [(Tuple [ustr ''a|'', ustr ''b''], 1)] = Inr [(Tuple [ustr ''a'', ustr ''|b''], 1)]"
  by (simp add: reload_def save_frequencies_def load_frequencies_def decode_key_def
      DELIM_eq ustr_def utf8_encodable_def int_writable_small)

text \<open>
  Claim C1, amended: for every table (a dictionary: its keys are distinct) in which no
  scalar key contains the delimiter, every tuple key has at least two elements, no element
  of a tuple key contains the delimiter, no element of a tuple key other than its last
  ends with a vertical bar, every token can be encoded in utf-8 and every count has at
  most 4300 decimal digits, loading what was saved gives the table back, item by item and
  in the same order.
\<close>

theorem C1_roundtrip:
  assumes "distinct (map fst t)"
    and "list_all (\<lambda>p. roundtrip_key (fst p)) t"
    and "list_all (\<lambda>p. key_encodable (fst p) \<and> int_writable (snd p)) t"
  shows "reload t = Inr t"
  using roundtrip_lists[OF assms(1) assms(2)] save_frequencies_ok[OF assms(3)]
  by (simp add: reload_def load_frequencies_def)

theorem C1_roundtrip_witness:
  "distinct (map fst [(Scalar (ustr ''the''), 3::int), (Tuple [ustr ''a'', ustr ''b''], 2),
                      (Tuple [ustr ''|x'', ustr ''y|''], 1)])
   \<and> list_all (\<lambda>p. roundtrip_key (fst p))
        [(Scalar (ustr ''the''), 3::int), (Tuple [ustr ''a'', ustr ''b''], 2),
         (Tuple [ustr ''|x'', ustr ''y|''], 1)]
   \<and> list_all (\<lambda>p. key_encodable (fst p) \<and> int_writable (snd p))
        [(Scalar (ustr ''the''), 3::int), (Tuple [ustr ''a'', ustr ''b''], 2),
         (Tuple [ustr ''|x'', ustr ''y|''], 1)]
   \<and> reload [(Scalar (ustr ''the''), 3), (Tuple [ustr ''a'', ustr ''b''], 2),
              (Tuple [ustr ''|x'', ustr ''y|''], 1)]
       = Inr [(Scalar (ustr ''the''), 3), (Tuple [ustr ''a'', ustr ''b''], 2),
              (Tuple [ustr ''|x'', ustr ''y|''], 1)]"
proof -
  let ?t = "[(Scalar (ustr ''the''), 3::int), (Tuple [ustr ''a'', ustr ''b''], 2),
             (Tuple [ustr ''|x'', ustr ''y|''], 1)]"
  have d: "distinct (map fst ?t)"
    by (simp add: ustr_def)
  have ok: "list_all (\<lambda>p. roundtrip_key (fst p)) ?t"
    by (simp add: ustr_def DELIM_eq ends_with_bar_def)
  have enc: "list_all (\<lambda>p. key_encodable (fst p) \<and> int_writable (snd p)) ?t"
    by (simp add: ustr_def utf8_encodable_def int_writable_small)
  show ?thesis
    by (rule conjI[OF d conjI[OF ok conjI[OF enc C1_roundtrip[OF d ok enc]]]])
qed



section \<open>Probabilities\<close>

text \<open>
  Claim C9: for the empty table \<^verbatim>\<open>calculate_probabilities\<close> returns the empty mapping
  and raises nothing, whatever the smoothing: the loop body, which holds the division, is
  never run.
\<close>

theorem C9_empty_table: "calculate_probabilities [] smoothing = Inr []"
  by (simp add: calculate_probabilities_def)




text \<open>
  In exact arithmetic the probabilities of a table with distinct keys and a non-zero total
  add up to 1. How the floating-point quotients and their sum are rounded is outside the
  model.
\<close>

lemma probabilities_loop_fresh:
  "total_count \<noteq> 0 \<Longrightarrow> distinct (map fst d) \<Longrightarrow> set (map fst d) \<inter> set (map fst acc) = {} \<Longrightarrow>
   probabilities_loop total_count smoothing d acc
     = Inr (acc @ map (\<lambda>p. (fst p, (real_of_int (snd p) + smoothing) / total_count)) d)"
proof (induction d arbitrary: acc)
  case Nil
  then show ?case by simp
next
  case (Cons p d)
  obtain k c where p: "p = (k, c)" by (cases p)
  let ?q = "(real_of_int c + smoothing) / total_count"
  from Cons.prems p have fresh: "k \<notin> fst ` set acc" by auto
  from Cons.prems p have d: "distinct (map fst d)" by simp
  from Cons.prems p have "set (map fst d) \<inter> set (map fst (acc @ [(k, ?q)])) = {}" by auto
  from Cons.IH[OF Cons.prems(1) d this] p fresh Cons.prems(1)
  show ?case by (simp add: dict_set_fresh)
qed

lemma sum_scaled:
  "sum_list (map (\<lambda>p. (real_of_int (snd p) + s) / t) d)
     = (real_of_int (sum_list (map snd d)) + s * real (length d)) / t"
  by (induction d) (simp_all add: add_divide_distrib algebra_simps)

lemma probabilities_exact_sum:
  assumes "distinct (map fst ngram_counts)"
    and "real_of_int (sum_list (map snd ngram_counts))
           + smoothing * real (length ngram_counts) \<noteq> 0"
  shows "\<exists>ps. calculate_probabilities ngram_counts smoothing = Inr ps
              \<and> sum_list (map snd ps) = 1"
proof -
  let ?t = "real_of_int (sum_list (map snd ngram_counts))
              + smoothing * real (length ngram_counts)"
  let ?ps = "map (\<lambda>p. (fst p, (real_of_int (snd p) + smoothing) / ?t)) ngram_counts"
  have "calculate_probabilities ngram_counts smoothing = Inr ?ps"
    using probabilities_loop_fresh[OF assms(2) assms(1), of "[]" smoothing]
    by (simp add: calculate_probabilities_def)
  moreover have "sum_list (map snd ?ps) = 1"
    using assms(2) sum_scaled[of smoothing ?t ngram_counts] by (simp add: comp_def)
  ultimately show ?thesis by blast
qed

section \<open>N-gram counts\<close>

lemma dict_set_bump_sum:
  "sum_list (map snd (dict_set k (dict_get d k 0 + 1) d)) = sum_list (map snd d) + (1::int)"
proof (induction d)
  case Nil
  then show ?case by (simp add: dict_get_def)
next
  case (Cons p d)
  obtain k' v' where p: "p = (k', v')" by (cases p)
  show ?case
  proof (cases "k' = k")
    case True
    with p show ?thesis by (simp add: dict_get_def)
  next
    case False
    then have "dict_get (p # d) k 0 = dict_get d k 0"
      using p by (simp add: dict_get_def)
    with False p Cons.IH show ?thesis by simp
  qed
qed

lemma count_elements_sum:
  "sum_list (map snd (count_elements xs d)) = sum_list (map snd d) + int (length xs)"
  by (induction xs arbitrary: d) (simp_all add: dict_set_bump_sum)

lemma Counter_sum: "sum_list (map snd (Counter xs)) = int (length xs)"
  by (simp add: Counter_def count_elements_sum)

text \<open>
  Claim C4: for a token sequence of length \<open>L\<close> and \<open>1 \<le> n \<le> L\<close> the counts of
  \<^verbatim>\<open>calculate_ngrams(tokens, n)\<close> add up to \<open>L - n + 1\<close>; for \<open>n > L\<close> the table
  is empty.
\<close>

theorem C4_ngram_conservation:
  "(1 \<le> n \<and> n \<le> int (length tokens) \<longrightarrow>
      sum_list (map snd (calculate_ngrams tokens n)) = int (length tokens) - n + 1)
   \<and> (int (length tokens) < n \<longrightarrow> calculate_ngrams tokens n = [])"
  by (auto simp: calculate_ngrams_def Counter_sum py_range_def) (simp_all add: Counter_def)

theorem C4_ngram_conservation_witness:
  "(1::int) \<le> 2 \<and> (2::int) \<le> int (length (map ustr [''a'', ''b'', ''a'', ''b'']))
   \<and> sum_list (map snd (calculate_ngrams (map ustr [''a'', ''b'', ''a'', ''b'']) 2)) = 3
   \<and> int (length (map ustr [''a'', ''b''])) < 3
   \<and> calculate_ngrams (map ustr [''a'', ''b'']) 3 = []"
  using C4_ngram_conservation[of 2 "map ustr [''a'', ''b'', ''a'', ''b'']"]
        C4_ngram_conservation[of 3 "map ustr [''a'', ''b'']"]
  by simp

section \<open>Summary\<close>

lemma ascii_sentences: "tokenize_sentences ascii_db (ustr ''a. b.'') = [ustr ''a'', ustr ''b'']"
  by (simp add: tokenize_sentences_def ustr_def is_terminator_def strip_def ascii_db_def)

text \<open>
  Claim C10, as stated: a text with at least one sentence and \<open>num_sentences \<le> 0\<close>
  give the summary \<^verbatim>\<open>'.'\<close>. A negative \<open>num_sentences\<close> is a slice bound counted
  from the end: \<^verbatim>\<open>sentences[:-1]\<close> drops the last sentence only, so the text
  \<^verbatim>\<open>'a. b.'\<close> with \<open>num_sentences = -1\<close> gives \<^verbatim>\<open>'a.'\<close>.
\<close>

theorem C10_summary_counterexample:
  "tokenize_sentences ascii_db (ustr ''a. b.'') \<noteq> [] \<and> (-1::int) \<le> 0
   \<and> create_summary ascii_db (ustr ''a. b.'') (-1) = ustr ''a.''
   \<and> ustr ''a.'' \<noteq> ustr ''.''"
  by (simp add: create_summary_def ascii_sentences py_slice_def slice_index_def
        endswith_terminator_def is_terminator_def) (simp add: ustr_def)

text \<open>
  Claim C10, amended: for a text with at least one sentence, and \<open>num_sentences\<close> equal to
  0 or at most minus the number of sentences, \<^verbatim>\<open>create_summary\<close> returns
  \<^verbatim>\<open>'.'\<close>.
\<close>

theorem C10_summary:
  assumes "tokenize_sentences db text \<noteq> []"
    and "num_sentences = 0 \<or> int (length (tokenize_sentences db text)) + num_sentences \<le> 0"
  shows "create_summary db text num_sentences = ustr ''.''"
  using assms
  by (auto simp: create_summary_def py_slice_def slice_index_def Let_def
        endswith_terminator_def)

theorem C10_summary_witness:
  "tokenize_sentences ascii_db (ustr ''a. b.'') \<noteq> []
   \<and> ((-2::int) = 0 \<or> int (length (tokenize_sentences ascii_db (ustr ''a. b.''))) + (-2) \<le> 0)
   \<and> create_summary ascii_db (ustr ''a. b.'') (-2) = ustr ''.''"
  using C10_summary[of ascii_db "ustr ''a. b.''" "-2"]
  by (simp add: ascii_sentences)

section \<open>Normalization\<close>

lemma normalize_text_steps:
  "normalize_text db text preserve =
     strip db (collapse_ws db False
       (if preserve then sub_class (\<lambda>c. \<not> kept_class db c) 32 (standardize (str_lower db text))
        else sub_stray db None (standardize (str_lower db text))))"
  by (simp add: normalize_text_def standardize_def Let_def)

lemma set_strip: "c \<in> set (strip db s) \<Longrightarrow> c \<in> set s"
  unfolding strip_def by (auto dest!: set_dropWhileD)

lemma set_collapse_ws:
  "c \<in> set (collapse_ws db b s) \<Longrightarrow> c = 32 \<or> (c \<in> set s \<and> \<not> is_space db c)"
  by (induction s arbitrary: b) (auto split: if_splits)

lemma set_sub_class: "c \<in> set (sub_class p r s) \<Longrightarrow> c = r \<or> (c \<in> set s \<and> \<not> p c)"
  by (auto simp: sub_class_def split: if_splits)

lemma sub_class_id: "(\<And>c. c \<in> set s \<Longrightarrow> p c \<Longrightarrow> c = r) \<Longrightarrow> sub_class p r s = s"
  unfolding sub_class_def by (induction s) auto

lemma set_standardize:
  assumes "c \<in> set (standardize s)"
  shows "(c \<in> set s \<or> c = 39 \<or> c = 45) \<and> c \<noteq> 8216 \<and> c \<noteq> 8217 \<and> c \<noteq> 8212 \<and> c \<noteq> 8211"
  using assms unfolding standardize_def sub_class_def
  by (auto split: if_splits)

lemma sub_stray_class:
  "\<not> is_word db 39 \<Longrightarrow> \<not> is_space db 39 \<Longrightarrow>
     sub_stray db prev s = sub_class (\<lambda>c. \<not> (is_word db c \<or> is_space db c)) 32 s"
  by (induction s arbitrary: prev) (auto simp: sub_class_def)

text \<open>
  Claim C6, as stated: every character of \<^verbatim>\<open>normalize_text(text, True)\<close> is a word
  character, whitespace, a full stop, an exclamation mark, a question mark or an apostrophe.
  The class of line 54, \<^verbatim>\<open>[^\w\s.!?\'-]\<close>, also keeps the hyphen-minus: the text
  \<^verbatim>\<open>'a-b'\<close> is returned unchanged.
\<close>

theorem C6_counterexample:
  "normalize_text ascii_db (ustr ''a-b'') True = ustr ''a-b''
   \<and> 45 \<in> set (ustr ''a-b'')
   \<and> \<not> (is_word ascii_db 45 \<or> is_space ascii_db 45 \<or> (45::nat) = 46 \<or> (45::nat) = 33
          \<or> (45::nat) = 63 \<or> (45::nat) = 39)"
  by (simp add: normalize_text_def ustr_def ascii_db_def ascii_lower_def sub_class_def
        kept_class_def strip_def)

text \<open>
  Claim C6, amended: every character of \<^verbatim>\<open>normalize_text(text, True)\<close> is a word
  character, a space, a full stop, an exclamation mark, a question mark, an apostrophe or
  a hyphen-minus; every other character of the lower-cased text with its quotes and dashes
  standardized is replaced with a single space before the whitespace is collapsed and the
  ends are stripped.
\<close>

theorem C6_output_characters:
  "(\<forall>c \<in> set (normalize_text db text True).
       is_word db c \<or> c = 32 \<or> c = 46 \<or> c = 33 \<or> c = 63 \<or> c = 39 \<or> c = 45)
   \<and> normalize_text db text True =
       strip db (collapse_ws db False
         (map (\<lambda>c. if kept_class db c then c else 32) (standardize (str_lower db text))))"
proof
  show "\<forall>c \<in> set (normalize_text db text True).
       is_word db c \<or> c = 32 \<or> c = 46 \<or> c = 33 \<or> c = 63 \<or> c = 39 \<or> c = 45"
  proof
    fix c assume "c \<in> set (normalize_text db text True)"
    then have "c \<in> set (collapse_ws db False
        (sub_class (\<lambda>c. \<not> kept_class db c) 32 (standardize (str_lower db text))))"
      by (simp add: normalize_text_steps set_strip)
    then have "c = 32 \<or> (c \<in> set (sub_class (\<lambda>c. \<not> kept_class db c) 32
                             (standardize (str_lower db text))) \<and> \<not> is_space db c)"
      by (rule set_collapse_ws)
    then have "c = 32 \<or> (kept_class db c \<and> \<not> is_space db c)"
      by (auto dest!: set_sub_class)
    then show "is_word db c \<or> c = 32 \<or> c = 46 \<or> c = 33 \<or> c = 63 \<or> c = 39 \<or> c = 45"
      by (auto simp: kept_class_def)
  qed
next
  have "sub_class (\<lambda>c. \<not> kept_class db c) 32 (standardize (str_lower db text))
      = map (\<lambda>c. if kept_class db c then c else 32) (standardize (str_lower db text))"
    by (simp add: sub_class_def)
  then show "normalize_text db text True =
       strip db (collapse_ws db False
         (map (\<lambda>c. if kept_class db c then c else 32) (standardize (str_lower db text))))"
    by (simp add: normalize_text_steps)
qed

theorem C6_output_characters_witness:
  "98 \<in> set (normalize_text ascii_db (ustr ''A, b-c!'') True)
   \<and> is_word ascii_db 98
   \<and> normalize_text ascii_db (ustr ''A, b-c!'') True = ustr ''a b-c!''"
proof -
  have v: "normalize_text ascii_db (ustr ''A, b-c!'') True = ustr ''a b-c!''"
    by (simp add: normalize_text_def ustr_def ascii_db_def ascii_lower_def sub_class_def
        kept_class_def strip_def)
  have m: "98 \<in> set (normalize_text ascii_db (ustr ''A, b-c!'') True)"
    unfolding v by (simp add: ustr_def)
  from C6_output_characters[of ascii_db "ustr ''A, b-c!''"] m
  have "is_word ascii_db 98 \<or> (98::nat) = 32 \<or> (98::nat) = 46 \<or> (98::nat) = 33
          \<or> (98::nat) = 63 \<or> (98::nat) = 39 \<or> (98::nat) = 45"
    by blast
  then have "is_word ascii_db 98" by simp
  with m v show ?thesis by blast
qed

lemma collapse_ws_head:
  "(case collapse_ws db True s of [] \<Rightarrow> True | d # _ \<Rightarrow> \<not> is_space db d)"
  by (induction s) auto

lemma tidy_collapse_ws: "tidy db (collapse_ws db b s)"
proof (induction s arbitrary: b)
  case Nil
  then show ?case by simp
next
  case (Cons c s)
  show ?case
  proof (cases "is_space db c")
    case True
    then show ?thesis using Cons.IH[of True] collapse_ws_head[of db s] by simp
  next
    case False
    then show ?thesis using Cons.IH[of False] by simp
  qed
qed

lemma collapse_ws_run:
  "(case s of [] \<Rightarrow> True | d # _ \<Rightarrow> \<not> is_space db d) \<Longrightarrow>
     collapse_ws db True s = collapse_ws db False s"
  by (cases s) auto

lemma collapse_ws_tidy: "tidy db s \<Longrightarrow> collapse_ws db False s = s"
proof (induction s)
  case Nil
  then show ?case by simp
next
  case (Cons c s)
  then have IH: "collapse_ws db False s = s" by simp
  show ?case
  proof (cases "is_space db c")
    case True
    with Cons.prems have c: "c = 32"
      and h: "(case s of [] \<Rightarrow> True | d # _ \<Rightarrow> \<not> is_space db d)" by auto
    from True c IH collapse_ws_run[OF h] show ?thesis by simp
  next
    case False
    with IH show ?thesis by simp
  qed
qed

lemma tidy_prefix: "tidy db (xs @ ys) \<Longrightarrow> tidy db xs"
proof (induction xs)
  case Nil
  then show ?case by simp
next
  case (Cons c xs)
  from Cons.prems have t: "tidy db (xs @ ys)" by simp
  have h: "c = 32 \<and> (case xs of [] \<Rightarrow> True | d # _ \<Rightarrow> \<not> is_space db d)"
    if "is_space db c"
  proof (cases xs)
    case Nil
    with Cons.prems that show ?thesis by simp
  next
    case (Cons d zs)
    with Cons.prems that show ?thesis by simp
  qed
  from Cons.IH[OF t] h show ?case by simp
qed

lemma tidy_suffix: "tidy db (xs @ ys) \<Longrightarrow> tidy db ys"
  by (induction xs) auto

lemma strip_prefix:
  "dropWhile (is_space db) s
     = strip db s @ rev (takeWhile (is_space db) (rev (dropWhile (is_space db) s)))"
proof -
  let ?u = "dropWhile (is_space db) s"
  have "rev (dropWhile (is_space db) (rev ?u)) @ rev (takeWhile (is_space db) (rev ?u))
      = rev (takeWhile (is_space db) (rev ?u) @ dropWhile (is_space db) (rev ?u))"
    by (simp only: rev_append)
  also have "\<dots> = ?u"
    by (simp only: takeWhile_dropWhile_id rev_rev_ident)
  finally show ?thesis unfolding strip_def by (rule sym)
qed

lemma tidy_strip: "tidy db s \<Longrightarrow> tidy db (strip db s)"
proof -
  assume t: "tidy db s"
  have "tidy db (takeWhile (is_space db) s @ dropWhile (is_space db) s)"
    using t by simp
  then have "tidy db (dropWhile (is_space db) s)" by (rule tidy_suffix)
  then have "tidy db (strip db s @ rev (takeWhile (is_space db) (rev (dropWhile (is_space db) s))))"
    using strip_prefix[of db s] by simp
  then show ?thesis by (rule tidy_prefix)
qed

lemma strip_idem: "strip db (strip db s) = strip db s"
proof -
  let ?P = "is_space db"
  let ?u = "dropWhile ?P s"
  let ?v = "strip db s"
  have uv: "?u = ?v @ rev (takeWhile ?P (rev ?u))" by (rule strip_prefix)
  have dv: "dropWhile ?P ?v = ?v"
  proof (cases "?v")
    case Nil
    then show ?thesis by simp
  next
    case (Cons a w)
    then have "?u \<noteq> []" by (metis uv append_Cons list.distinct(1))
    then have "\<not> ?P (hd ?u)" by (rule hd_dropWhile)
    moreover have "hd ?u = a" using uv Cons by (metis append_Cons list.sel(1))
    ultimately show ?thesis using Cons by simp
  qed
  have "strip db ?v = rev (dropWhile ?P (rev ?v))"
    unfolding strip_def[of db ?v] dv ..
  also have "rev ?v = dropWhile ?P (rev ?u)" by (simp add: strip_def)
  also have "rev (dropWhile ?P (dropWhile ?P (rev ?u))) = ?v"
    by (simp add: strip_def)
  finally show ?thesis .
qed

lemma pipeline_fixed:
  fixes db :: unicode_db and K :: "nat \<Rightarrow> bool"
  assumes ls: "lower_stable db"
  defines "N \<equiv> \<lambda>t. strip db (collapse_ws db False
                      (sub_class (\<lambda>c. \<not> K c) 32 (standardize (str_lower db t))))"
  shows "N (N t) = N t"
proof -
  let ?l = "str_lower db t"
  let ?r = "sub_class (\<lambda>c. \<not> K c) 32 (standardize ?l)"
  let ?o = "N t"
  have o: "?o = strip db (collapse_ws db False ?r)" by (simp add: N_def)
  have chars: "c = 32 \<or> (c \<in> set (standardize ?l) \<and> K c)" if "c \<in> set ?o" for c
  proof -
    from that have "c \<in> set (collapse_ws db False ?r)" unfolding o by (rule set_strip)
    then have "c = 32 \<or> c \<in> set ?r" by (auto dest: set_collapse_ws)
    then show ?thesis by (auto dest: set_sub_class)
  qed
  have "set ?o \<subseteq> set ?l \<union> {32, 39, 45}"
    using chars set_standardize by blast
  with ls have low: "str_lower db ?o = ?o"
    unfolding lower_stable_def by blast
  have std: "standardize ?o = ?o"
  proof -
    have no: "c \<noteq> 8216 \<and> c \<noteq> 8217 \<and> c \<noteq> 8212 \<and> c \<noteq> 8211" if "c \<in> set ?o" for c
      using chars[OF that] set_standardize[of c ?l] by auto
    have 1: "sub_class (\<lambda>c. c = 34) 34 ?o = ?o" by (rule sub_class_id) simp
    have 2: "sub_class (\<lambda>c. c = 8216 \<or> c = 8217) 39 ?o = ?o"
      by (rule sub_class_id) (use no in blast)
    have 3: "sub_class (\<lambda>c. c = 8212 \<or> c = 8211) 45 ?o = ?o"
      by (rule sub_class_id) (use no in blast)
    show ?thesis unfolding standardize_def 1 2 3 ..
  qed
  have rep: "sub_class (\<lambda>c. \<not> K c) 32 ?o = ?o"
    by (rule sub_class_id) (use chars in blast)
  have "tidy db ?o" unfolding o by (rule tidy_strip) (rule tidy_collapse_ws)
  then have col: "collapse_ws db False ?o = ?o" by (rule collapse_ws_tidy)
  have str: "strip db ?o = ?o" unfolding o by (rule strip_idem)
  have "N ?o = strip db (collapse_ws db False
                      (sub_class (\<lambda>c. \<not> K c) 32 (standardize (str_lower db ?o))))"
    by (simp add: N_def)
  also have "\<dots> = ?o" unfolding low std rep col str ..
  finally show ?thesis .
qed

text \<open>
  Claim C7: \<^verbatim>\<open>normalize_text\<close> is idempotent, for each value of
  \<^verbatim>\<open>preserve_sentences\<close>. The two hypotheses are facts of Python's Unicode tables:
  lower-casing is stable in the sense of \<open>lower_stable\<close>, and the apostrophe is neither a
  word character nor whitespace (used when \<^verbatim>\<open>preserve_sentences\<close> is false).
\<close>

theorem C7_normalize_idempotent:
  assumes "lower_stable db"
    and "preserve_sentences \<or> \<not> (is_word db 39 \<or> is_space db 39)"
  shows "normalize_text db (normalize_text db text preserve_sentences) preserve_sentences
           = normalize_text db text preserve_sentences"
proof (cases preserve_sentences)
  case True
  then show ?thesis
    using pipeline_fixed[OF assms(1), of "kept_class db" "text"]
    by (simp add: normalize_text_steps)
next
  case False
  with assms(2) have a: "\<not> is_word db 39" "\<not> is_space db 39" by auto
  show ?thesis
    using pipeline_fixed[OF assms(1), of "\<lambda>c. is_word db c \<or> is_space db c" "text"] False
    by (simp add: normalize_text_steps sub_stray_class[OF a])
qed

lemma ascii_lower_stable: "lower_stable ascii_db"
proof -
  have "map ascii_lower t = t" if "set t \<subseteq> set (map ascii_lower s) \<union> {32, 39, 45}" for s t
  proof (rule map_idI)
    fix c assume "c \<in> set t"
    with that have "c \<in> ascii_lower ` set s \<or> c = 32 \<or> c = 39 \<or> c = 45" by auto
    then show "ascii_lower c = c" by (auto simp: ascii_lower_def)
  qed
  then show ?thesis by (simp add: lower_stable_def ascii_db_def)
qed

theorem C7_normalize_idempotent_witness:
  "\<not> (is_word ascii_db 39 \<or> is_space ascii_db 39)
   \<and> normalize_text ascii_db (ustr '' It'' @ [39] @ ustr ''s  A-b, c! '') True
        = ustr ''it'' @ [39] @ ustr ''s a-b c!''
   \<and> normalize_text ascii_db (ustr ''it'' @ [39] @ ustr ''s a-b c!'') True
        = ustr ''it'' @ [39] @ ustr ''s a-b c!''
   \<and> normalize_text ascii_db (ustr '' It'' @ [39] @ ustr ''s  A-b, c! '') False
        = ustr ''it s a b c''
   \<and> normalize_text ascii_db (ustr ''it s a b c'') False = ustr ''it s a b c''"
proof -
  have w: "\<not> (is_word ascii_db 39 \<or> is_space ascii_db 39)"
    by (simp add: ascii_db_def)
  have t: "normalize_text ascii_db (ustr '' It'' @ [39] @ ustr ''s  A-b, c! '') True
             = ustr ''it'' @ [39] @ ustr ''s a-b c!''"
    by (simp add: normalize_text_def ustr_def ascii_db_def ascii_lower_def sub_class_def
        kept_class_def strip_def)
  have f: "normalize_text ascii_db (ustr '' It'' @ [39] @ ustr ''s  A-b, c! '') False
             = ustr ''it s a b c''"
    by (simp add: normalize_text_def ustr_def ascii_db_def ascii_lower_def sub_class_def
        strip_def)
  have "normalize_text ascii_db
          (normalize_text ascii_db (ustr '' It'' @ [39] @ ustr ''s  A-b, c! '') True) True
        = normalize_text ascii_db (ustr '' It'' @ [39] @ ustr ''s  A-b, c! '') True"
    by (rule C7_normalize_idempotent[OF ascii_lower_stable]) simp
  then have t2: "normalize_text ascii_db (ustr ''it'' @ [39] @ ustr ''s a-b c!'') True
        = ustr ''it'' @ [39] @ ustr ''s a-b c!''"
    unfolding t .
  have "normalize_text ascii_db
          (normalize_text ascii_db (ustr '' It'' @ [39] @ ustr ''s  A-b, c! '') False) False
        = normalize_text ascii_db (ustr '' It'' @ [39] @ ustr ''s  A-b, c! '') False"
    by (rule C7_normalize_idempotent[OF ascii_lower_stable]) (use w in simp)
  then have f2: "normalize_text ascii_db (ustr ''it s a b c'') False = ustr ''it s a b c''"
    unfolding f .
  show ?thesis
    by (rule conjI[OF w conjI[OF t conjI[OF t2 conjI[OF f f2]]]])
qed

section \<open>Statistics\<close>

lemma count_elements_snoc:
  "count_elements (xs @ [x]) d
     = dict_set x (dict_get (count_elements xs d) x 0 + 1) (count_elements xs d)"
  by (induction xs arbitrary: d) simp_all

lemma Counter_snoc:
  "Counter (xs @ [x]) = dict_set x (dict_get (Counter xs) x 0 + 1) (Counter xs)"
  by (simp add: Counter_def count_elements_snoc)

lemma map_of_dict_set: "map_of (dict_set k v d) = (map_of d)(k \<mapsto> v)"
  by (induction d) (auto simp: fun_eq_iff)

lemma Counter_lookup:
  "map_of (Counter xs) w = (if w \<in> set xs then Some (int (count_list xs w)) else None)"
proof (induction xs arbitrary: w rule: rev_induct)
  case Nil
  then show ?case by (simp add: Counter_def)
next
  case (snoc x xs)
  have g: "dict_get (Counter xs) x 0 = int (count_list xs x)"
    using snoc.IH[of x] by (simp add: dict_get_def count_list_0_iff)
  show ?case
  proof (cases "w = x")
    case True
    then show ?thesis by (simp add: Counter_snoc map_of_dict_set g)
  next
    case False
    then show ?thesis using snoc.IH by (simp add: Counter_snoc map_of_dict_set)
  qed
qed

lemma Counter_keys_set: "set (map fst (Counter xs)) = set xs"
proof (induction xs rule: rev_induct)
  case Nil
  then show ?case by (simp add: Counter_def)
next
  case (snoc x xs)
  then show ?case unfolding Counter_snoc dict_set_keys by simp
qed

lemma Counter_keys_distinct: "distinct (map fst (Counter xs))"
proof (induction xs rule: rev_induct)
  case Nil
  then show ?case by (simp add: Counter_def)
next
  case (snoc x xs)
  then show ?case unfolding Counter_snoc dict_set_key_list by simp
qed

lemma first_index_snoc_old: "a \<in> set xs \<Longrightarrow> first_index (xs @ [x]) a = first_index xs a"
  by (simp add: first_index_def)

lemma first_index_snoc_new: "x \<notin> set xs \<Longrightarrow> first_index (xs @ [x]) x = length xs"
proof -
  assume "x \<notin> set xs"
  then have "\<And>y. y \<in> set xs \<Longrightarrow> y \<noteq> x" by auto
  then have "takeWhile (\<lambda>y. y \<noteq> x) (xs @ [x]) = xs @ takeWhile (\<lambda>y. y \<noteq> x) [x]"
    by (rule takeWhile_append2)
  then show ?thesis by (simp add: first_index_def)
qed

lemma first_index_less: "a \<in> set xs \<Longrightarrow> first_index xs a < length xs"
  unfolding first_index_def
  by (induction xs) auto

lemma Counter_keys_order:
  "sorted_wrt (\<lambda>a b. first_index xs a < first_index xs b) (map fst (Counter xs))"
proof (induction xs rule: rev_induct)
  case Nil
  then show ?case by (simp add: Counter_def)
next
  case (snoc x xs)
  let ?ks = "map fst (Counter xs)"
  have old: "sorted_wrt (\<lambda>a b. first_index (xs @ [x]) a < first_index (xs @ [x]) b) ?ks"
  proof (rule sorted_wrt_mono_rel[OF _ snoc.IH])
    fix a b assume "a \<in> set ?ks" "b \<in> set ?ks" "first_index xs a < first_index xs b"
    then show "first_index (xs @ [x]) a < first_index (xs @ [x]) b"
      unfolding Counter_keys_set by (simp add: first_index_snoc_old)
  qed
  show ?case
  proof (cases "x \<in> set xs")
    case True
    then have "map fst (Counter (xs @ [x])) = ?ks"
      unfolding Counter_snoc dict_set_key_list Counter_keys_set by simp
    with old show ?thesis by simp
  next
    case False
    then have k: "map fst (Counter (xs @ [x])) = ?ks @ [x]"
      unfolding Counter_snoc dict_set_key_list Counter_keys_set by simp
    have "first_index (xs @ [x]) a < first_index (xs @ [x]) x" if "a \<in> set ?ks" for a
    proof -
      from that have a: "a \<in> set xs" unfolding Counter_keys_set .
      then show ?thesis
        using False first_index_less[OF a]
        by (simp add: first_index_snoc_old first_index_snoc_new)
    qed
    with old show ?thesis unfolding k sorted_wrt_append by simp
  qed
qed

lemma Counter_items:
  assumes "p \<in> set (Counter xs)"
  shows "fst p \<in> set xs \<and> snd p = int (count_list xs (fst p))"
proof -
  obtain w c where p: "p = (w, c)" by (cases p)
  with assms have "map_of (Counter xs) w = Some c"
    using Counter_keys_distinct[of xs] by simp
  then show ?thesis unfolding Counter_lookup p by (simp split: if_splits)
qed

lemma insort_key_ties:
  assumes "sorted_wrt (\<lambda>p q. f p = f q \<longrightarrow> S p q) ys" and "\<And>y. y \<in> set ys \<Longrightarrow> S x y"
    and "sorted (map f ys)"
  shows "sorted_wrt (\<lambda>p q. f p = f q \<longrightarrow> S p q) (insort_key f x ys)"
  using assms
proof (induction ys)
  case Nil
  then show ?case by simp
next
  case (Cons y ys)
  show ?case
  proof (cases "f x \<le> f y")
    case True
    with Cons.prems show ?thesis by simp
  next
    case False
    have t: "sorted_wrt (\<lambda>p q. f p = f q \<longrightarrow> S p q) (insort_key f x ys)"
      using Cons.IH Cons.prems by simp
    have "f y = f q \<longrightarrow> S y q" if "q \<in> set (insort_key f x ys)" for q
    proof -
      from that have "q = x \<or> q \<in> set ys" by (simp add: set_insort_key)
      then show ?thesis using False Cons.prems(1) by auto
    qed
    with False t show ?thesis by simp
  qed
qed

lemma sort_key_ties:
  "sorted_wrt S xs \<Longrightarrow> sorted_wrt (\<lambda>p q. f p = f q \<longrightarrow> S p q) (sort_key f xs)"
proof (induction xs)
  case Nil
  then show ?case by simp
next
  case (Cons x xs)
  then have "sorted_wrt (\<lambda>p q. f p = f q \<longrightarrow> S p q) (sort_key f xs)"
    and "\<And>y. y \<in> set (sort_key f xs) \<Longrightarrow> S x y" by simp_all
  then show ?case using insort_key_ties[of f S "sort_key f xs" x] by simp
qed

lemma most_common_props:
  fixes ws :: "'a list" and n :: nat
  defines "mc \<equiv> most_common n (Counter ws)"
  shows "length mc \<le> n"
    and "\<forall>p \<in> set mc. fst p \<in> set ws \<and> snd p = int (count_list ws (fst p))"
    and "sorted_wrt (\<lambda>p q. snd q \<le> snd p) mc"
    and "sorted_wrt (\<lambda>p q. snd p = snd q \<longrightarrow>
                       first_index ws (fst p) < first_index ws (fst q)) mc"
    and "\<forall>w \<in> set ws. (w, int (count_list ws w)) \<in> set mc
            \<or> (length mc = n \<and> (\<forall>p \<in> set mc. int (count_list ws w) \<le> snd p))"
proof -
  let ?full = "sort_key (\<lambda>p. - snd p) (Counter ws)"
  have mc: "mc = take n ?full" by (simp add: mc_def most_common_def)
  show "length mc \<le> n" by (simp add: mc)
  show "\<forall>p \<in> set mc. fst p \<in> set ws \<and> snd p = int (count_list ws (fst p))"
  proof
    fix p assume "p \<in> set mc"
    then have "p \<in> set ?full" unfolding mc by (rule in_set_takeD)
    then have "p \<in> set (Counter ws)" by simp
    then show "fst p \<in> set ws \<and> snd p = int (count_list ws (fst p))"
      by (rule Counter_items)
  qed
  have "sorted (map (\<lambda>p. - snd p) ?full)" by (rule sorted_sort_key)
  then have desc: "sorted_wrt (\<lambda>p q. snd q \<le> snd p) ?full"
    by (simp add: sorted_map)
  then show "sorted_wrt (\<lambda>p q. snd q \<le> snd p) mc"
    unfolding mc by (rule sorted_wrt_take)
  have "sorted_wrt (\<lambda>p q. first_index ws (fst p) < first_index ws (fst q)) (Counter ws)"
    using Counter_keys_order[of ws] by (simp add: sorted_wrt_map)
  then have "sorted_wrt (\<lambda>p q. - snd p = - snd q \<longrightarrow>
                 first_index ws (fst p) < first_index ws (fst q)) ?full"
    by (rule sort_key_ties)
  then have "sorted_wrt (\<lambda>p q. snd p = snd q \<longrightarrow>
                 first_index ws (fst p) < first_index ws (fst q)) ?full"
    by simp
  then show "sorted_wrt (\<lambda>p q. snd p = snd q \<longrightarrow>
                 first_index ws (fst p) < first_index ws (fst q)) mc"
    unfolding mc by (rule sorted_wrt_take)
  show "\<forall>w \<in> set ws. (w, int (count_list ws w)) \<in> set mc
            \<or> (length mc = n \<and> (\<forall>p \<in> set mc. int (count_list ws w) \<le> snd p))"
  proof
    fix w assume w: "w \<in> set ws"
    let ?e = "(w, int (count_list ws w))"
    have "map_of (Counter ws) w = Some (int (count_list ws w))"
      using w by (simp add: Counter_lookup)
    then have "?e \<in> set (Counter ws)" by (rule map_of_SomeD)
    then have "?e \<in> set (take n ?full @ drop n ?full)" by simp
    then have "?e \<in> set mc \<or> ?e \<in> set (drop n ?full)"
      unfolding mc set_append by blast
    moreover have "length mc = n \<and> (\<forall>p \<in> set mc. int (count_list ws w) \<le> snd p)"
      if d: "?e \<in> set (drop n ?full)"
    proof
      from d have "drop n ?full \<noteq> []" by auto
      then show "length mc = n" by (simp add: mc)
      have "sorted_wrt (\<lambda>p q. snd q \<le> snd p) (take n ?full @ drop n ?full)"
        using desc by simp
      then have "\<forall>p \<in> set (take n ?full). \<forall>q \<in> set (drop n ?full). snd q \<le> snd p"
        unfolding sorted_wrt_append by blast
      with d show "\<forall>p \<in> set mc. int (count_list ws w) \<le> snd p"
        unfolding mc by fastforce
    qed
    ultimately show "?e \<in> set mc
            \<or> (length mc = n \<and> (\<forall>p \<in> set mc. int (count_list ws w) \<le> snd p))"
      by blast
  qed
qed

lemma scenario5:
  "get_text_statistics ascii_db (ustr ''the cat sat on the mat. the cat ran.'')
     = \<lparr> total_characters = 36, total_words = 9, total_sentences = 2,
         most_common_words = [(ustr ''the'', 3), (ustr ''cat'', 2), (ustr ''sat'', 1),
                              (ustr ''on'', 1), (ustr ''mat'', 1), (ustr ''ran'', 1)] \<rparr>"
  by (simp add: get_text_statistics_def tokenize_words_def tokenize_sentences_def
        ustr_def ascii_db_def is_terminator_def strip_def Counter_def dict_get_def
        most_common_def)

text \<open>
  Claim C8: \<^verbatim>\<open>most_common_words\<close> holds at most 10 pairs of a word of
  \<^verbatim>\<open>tokenize_words(text)\<close> and its number of occurrences there, in descending order
  of count, two words of equal count in the order of their first occurrences; a word that
  is not listed has a count no greater than any listed one, and then the list is full.
  For the text \<^verbatim>\<open>'the cat sat on the mat. the cat ran.'\<close> the first pair is
  \<^verbatim>\<open>('the', 3)\<close>, with 9 words and 2 sentences.
\<close>

theorem C8_most_common_words:
  "length (most_common_words (get_text_statistics db text)) \<le> 10
   \<and> (\<forall>p \<in> set (most_common_words (get_text_statistics db text)).
         fst p \<in> set (tokenize_words db text)
         \<and> snd p = int (count_list (tokenize_words db text) (fst p)))
   \<and> sorted_wrt (\<lambda>p q. snd q \<le> snd p) (most_common_words (get_text_statistics db text))
   \<and> sorted_wrt (\<lambda>p q. snd p = snd q \<longrightarrow>
          first_index (tokenize_words db text) (fst p)
            < first_index (tokenize_words db text) (fst q))
        (most_common_words (get_text_statistics db text))
   \<and> (\<forall>w \<in> set (tokenize_words db text).
         (w, int (count_list (tokenize_words db text) w))
            \<in> set (most_common_words (get_text_statistics db text))
         \<or> (length (most_common_words (get_text_statistics db text)) = 10
            \<and> (\<forall>p \<in> set (most_common_words (get_text_statistics db text)).
                  int (count_list (tokenize_words db text) w) \<le> snd p)))
   \<and> hd (most_common_words
            (get_text_statistics ascii_db (ustr ''the cat sat on the mat. the cat ran.'')))
        = (ustr ''the'', 3)
   \<and> total_words (get_text_statistics ascii_db (ustr ''the cat sat on the mat. the cat ran.'')) = 9
   \<and> total_sentences
        (get_text_statistics ascii_db (ustr ''the cat sat on the mat. the cat ran.'')) = 2"
proof -
  have mc: "most_common_words (get_text_statistics db text)
              = most_common 10 (Counter (tokenize_words db text))"
    by (simp add: get_text_statistics_def Let_def)
  note p = most_common_props[where ws = "tokenize_words db text" and n = 10]
  have c: "hd (most_common_words
            (get_text_statistics ascii_db (ustr ''the cat sat on the mat. the cat ran.'')))
        = (ustr ''the'', 3)
   \<and> total_words (get_text_statistics ascii_db (ustr ''the cat sat on the mat. the cat ran.'')) = 9
   \<and> total_sentences
        (get_text_statistics ascii_db (ustr ''the cat sat on the mat. the cat ran.'')) = 2"
    unfolding scenario5 by simp
  show ?thesis
    unfolding mc
    by (rule conjI[OF p(1) conjI[OF p(2) conjI[OF p(3) conjI[OF p(4) conjI[OF p(5) c]]]]])
qed

theorem C8_most_common_words_witness:
  "most_common_words (get_text_statistics ascii_db (ustr ''b a b a.''))
     = [(ustr ''b'', 2), (ustr ''a'', 2)]
   \<and> first_index (tokenize_words ascii_db (ustr ''b a b a.'')) (ustr ''b'')
       < first_index (tokenize_words ascii_db (ustr ''b a b a.'')) (ustr ''a'')
   \<and> ustr ''b'' \<in> set (tokenize_words ascii_db (ustr ''b a b a.''))"
proof -
  have v: "most_common_words (get_text_statistics ascii_db (ustr ''b a b a.''))
             = [(ustr ''b'', 2), (ustr ''a'', 2)]"
    by (simp add: get_text_statistics_def tokenize_words_def tokenize_sentences_def
        ustr_def ascii_db_def is_terminator_def strip_def Counter_def dict_get_def
        most_common_def)
  note c = C8_most_common_words[of ascii_db "ustr ''b a b a.''"]
  from c have "sorted_wrt (\<lambda>p q. snd p = snd q \<longrightarrow>
          first_index (tokenize_words ascii_db (ustr ''b a b a.'')) (fst p)
            < first_index (tokenize_words ascii_db (ustr ''b a b a.'')) (fst q))
        (most_common_words (get_text_statistics ascii_db (ustr ''b a b a.'')))"
    by (elim conjE)
  then have o: "first_index (tokenize_words ascii_db (ustr ''b a b a.'')) (ustr ''b'')
       < first_index (tokenize_words ascii_db (ustr ''b a b a.'')) (ustr ''a'')"
    unfolding v by simp
  from c have "\<forall>p \<in> set (most_common_words (get_text_statistics ascii_db (ustr ''b a b a.''))).
         fst p \<in> set (tokenize_words ascii_db (ustr ''b a b a.''))
         \<and> snd p = int (count_list (tokenize_words ascii_db (ustr ''b a b a.'')) (fst p))"
    by (elim conjE)
  then have m: "ustr ''b'' \<in> set (tokenize_words ascii_db (ustr ''b a b a.''))"
    unfolding v by simp
  show ?thesis by (rule conjI[OF v conjI[OF o m]])
qed

end
